theory Spec2Isabelle
  imports Main
begin

section \<open>Events and the selective passthrough of the raw interface\<close>

text \<open>
  Modelled from the spec: the type \<open>Event\<close> of the controller library, which the module
  imports and whose declaration is not part of it. An event is a tagged record, one of
  button, axis and configuration; in the code it is a dictionary with the keys \<open>type\<close>,
  \<open>code\<close> and \<open>value\<close>, and the tag \<open>type\<close> is the constructor here. The passthrough
  reads the value of a button with \<open>ev.get("value", False)\<close>, so the value of a button is
  optional and \<open>get_value\<close> is that read; the payload of the other events is never
  inspected and stays a type parameter.
\<close>

datatype 'v event =
    Button string "bool option"
  | Axis string 'v
  | Configuration string 'v

fun get_value :: "bool option \<Rightarrow> bool" where
  "get_value None = False"
| "get_value (Some b) = b"

text \<open>The devices of one session; \<open>RawHid\<close> is the hidraw gamepad that \<open>d_raw\<close> wraps.\<close>

datatype dev = DS5 | AccelImu | GyroImu | XInput | Shortcuts | Touch | RawHid | Raw

text \<open>The fields of \<open>SelectivePasshtrough\<close>, as \<open>__init__\<close> sets them.\<close>

record gate =
  parent :: dev
  state :: bool
  forward_buttons :: "string list"
  passthrough :: "string list"
  to_disable :: "string list"

definition init_gate :: "dev \<Rightarrow> string list \<Rightarrow> string list \<Rightarrow> gate" where
  "init_gate p fwd pt =
     \<lparr>parent = p, state = False, forward_buttons = fwd, passthrough = pt, to_disable = []\<rparr>"

text \<open>
  One turn of the \<open>for ev in evs\<close> loop of \<open>produce\<close>: first the update of \<open>state\<close>
  from a forward button, then the chain that either keeps the event in \<open>out\<close> or
  records the code of a pressed button in \<open>to_disable\<close>.
\<close>

fun set_state :: "gate \<Rightarrow> 'v event \<Rightarrow> gate" where
  "set_state g (Button c v) =
     (if c \<in> set (forward_buttons g) then g\<lparr>state := get_value v\<rparr> else g)"
| "set_state g (Axis c v) = g"
| "set_state g (Configuration c v) = g"

fun collect :: "gate \<Rightarrow> 'v event list \<Rightarrow> 'v event \<Rightarrow> gate \<times> 'v event list" where
  "collect g out (Configuration c v) = (g, out @ [Configuration c v])"
| "collect g out (Button c v) =
     (if c \<in> set (passthrough g) then (g, out @ [Button c v])
      else if get_value v then (g\<lparr>to_disable := to_disable g @ [c]\<rparr>, out)
      else (g, out))"
| "collect g out (Axis c v) = (g, out)"

fun scan :: "gate \<Rightarrow> 'v event list \<Rightarrow> 'v event list \<Rightarrow> gate \<times> 'v event list" where
  "scan g out [] = (g, out)"
| "scan g out (ev # evs) =
     (case collect (set_state g ev) out ev of (g', out') \<Rightarrow> scan g' out' evs)"

text \<open>
  The body of \<open>produce\<close> after \<open>evs = self.parent.produce(fds)\<close>: the batch \<open>evs\<close> of
  the parent goes in, the returned batch and the updated object come out.
\<close>

definition release :: "string \<Rightarrow> 'v event" where
  "release btn = Button btn (Some False)"

definition produce :: "gate \<Rightarrow> 'v event list \<Rightarrow> 'v event list \<times> gate" where
  "produce g evs =
     (let prev_state = state g in
      case scan g [] evs of (g', out) \<Rightarrow>
        if state g' then (evs, g')
        else if prev_state then (out @ map release (to_disable g'), g'\<lparr>to_disable := []\<rparr>)
        else (out, g'))"

text \<open>A sequence of calls of \<open>produce\<close> on the same object, one batch per call.\<close>

fun produce_all :: "gate \<Rightarrow> 'v event list list \<Rightarrow> 'v event list list \<times> gate" where
  "produce_all g [] = ([], g)"
| "produce_all g (b # bs) =
     (case produce g b of (out, g') \<Rightarrow>
        (case produce_all g' bs of (outs, g'') \<Rightarrow> (out # outs, g'')))"

text \<open>
  No call of the sequence takes the branch \<open>elif prev_state\<close> of \<open>produce\<close>, the one
  that is taken when \<open>state\<close> was true before the batch and is false after it.
\<close>

fun no_transition :: "gate \<Rightarrow> 'v event list list \<Rightarrow> bool" where
  "no_transition g [] = True"
| "no_transition g (b # bs) =
     (case produce g b of (out, g') \<Rightarrow>
        \<not> (state g \<and> \<not> state g') \<and> no_transition g' bs)"

subsection \<open>The vocabulary of the specification\<close>

text \<open>
  The events that the filter keeps for the allow-list \<open>pt\<close>: every configuration event
  and every button whose code is listed.
\<close>

fun is_kept :: "string list \<Rightarrow> 'v event \<Rightarrow> bool" where
  "is_kept pt (Configuration c v) = True"
| "is_kept pt (Button c v) = (c \<in> set pt)"
| "is_kept pt (Axis c v) = False"

text \<open>
  The filter in the words of the specification: the configuration events and the
  button and axis events whose code is in the allow-list.
\<close>

fun spec_is_kept :: "string list \<Rightarrow> 'v event \<Rightarrow> bool" where
  "spec_is_kept pt (Configuration c v) = True"
| "spec_is_kept pt (Button c v) = (c \<in> set pt)"
| "spec_is_kept pt (Axis c v) = (c \<in> set pt)"

text \<open>The codes of the pressed buttons of a batch that are outside the allow-list, in order.\<close>

fun pressed_codes :: "string list \<Rightarrow> 'v event list \<Rightarrow> string list" where
  "pressed_codes pt [] = []"
| "pressed_codes pt (Button c v # evs) =
     (if get_value v \<and> c \<notin> set pt then c # pressed_codes pt evs else pressed_codes pt evs)"
| "pressed_codes pt (Axis c v # evs) = pressed_codes pt evs"
| "pressed_codes pt (Configuration c v # evs) = pressed_codes pt evs"

text \<open>
  The same in the words of the specification, which also leaves out the modifier
  buttons \<open>fwd\<close>.
\<close>

fun spec_pressed_codes :: "string list \<Rightarrow> string list \<Rightarrow> 'v event list \<Rightarrow> string list" where
  "spec_pressed_codes fwd pt [] = []"
| "spec_pressed_codes fwd pt (Button c v # evs) =
     (if get_value v \<and> c \<notin> set pt \<and> c \<notin> set fwd then c # spec_pressed_codes fwd pt evs
      else spec_pressed_codes fwd pt evs)"
| "spec_pressed_codes fwd pt (Axis c v # evs) = spec_pressed_codes fwd pt evs"
| "spec_pressed_codes fwd pt (Configuration c v # evs) = spec_pressed_codes fwd pt evs"

text \<open>A press of the button \<open>c\<close>: a button event with that code whose value reads as true.\<close>

fun is_press :: "string \<Rightarrow> 'v event \<Rightarrow> bool" where
  "is_press c (Button c' v) = (c' = c \<and> get_value v)"
| "is_press c (Axis c' v) = False"
| "is_press c (Configuration c' v) = False"

section \<open>The session: devices, registry and the report loop\<close>

text \<open>
  Exceptions are values. \<open>Exception\<close> stands for an instance of any subclass of Python's
  \<open>Exception\<close>; \<open>KeyboardInterrupt\<close> and \<open>SystemExit\<close> are not among them.
\<close>

datatype exn = KeyboardInterrupt | SystemExit | Exception string

type_synonym fd = nat

text \<open>
  The device classes, \<open>select\<close>, the multiplexer and the HID enumeration are outside
  the module. Each call on them is recorded, with its arguments and its outcome, in a
  list of calls; what a call answers is given by an environment as a function of the
  calls made so far, so a device may answer differently each time. A call on the
  passthrough object \<open>Raw\<close> is recorded after the calls it makes on its parent.
\<close>

datatype 'v call =
    Open dev "exn + fd list"
  | Close dev bool "exn + bool"
  | Produce dev "fd list" "exn + 'v event list"
  | Consume dev "'v event list" "exn option"
  | Select "fd list" "exn + fd list"
  | Enumerate "exn + nat list"
  | Sleep nat "exn option"

text \<open>
  Every call may raise. \<open>close\<close> answers with a Boolean, its declared result, which
  the loop ignores. \<open>sleep\<close> is \<open>time.sleep\<close>, which the user may interrupt.
  \<open>producer_close\<close> is \<open>Producer.close\<close>, the method that \<open>super().close(exit)\<close>
  reaches from \<open>SelectivePasshtrough\<close>; the base class is not part of the module and
  knows nothing of the attribute \<open>parent\<close>, so it is a parameter that only answers.
  \<open>process\<close> is \<open>Multiplexer.process\<close>.
\<close>

record 'v env =
  open_dev :: "dev \<Rightarrow> 'v call list \<Rightarrow> exn + fd list"
  close_dev :: "dev \<Rightarrow> bool \<Rightarrow> 'v call list \<Rightarrow> exn + bool"
  produce_dev :: "dev \<Rightarrow> fd list \<Rightarrow> 'v call list \<Rightarrow> exn + 'v event list"
  consume_dev :: "dev \<Rightarrow> 'v event list \<Rightarrow> 'v call list \<Rightarrow> exn option"
  select :: "fd list \<Rightarrow> 'v call list \<Rightarrow> exn + fd list"
  process :: "'v event list \<Rightarrow> 'v event list"
  producer_close :: "bool \<Rightarrow> exn + bool"
  enumerate_unique :: "'v call list \<Rightarrow> exn + nat list"
  sleep :: "nat \<Rightarrow> 'v call list \<Rightarrow> exn option"

text \<open>
  The local state of \<open>controller_loop_xinput\<close>: the lists \<open>fds\<close> and \<open>devs\<close>, the
  dictionary \<open>fd_to_dev\<close>, the passthrough object \<open>d_raw\<close>, and the calls made so far.
\<close>

record 'v session =
  fds :: "fd list"
  devs :: "dev list"
  fd_to_dev :: "fd \<rightharpoonup> dev"
  d_raw :: gate
  calls :: "'v call list"

subsection \<open>The methods of the devices\<close>

definition dev_open :: "'v env \<Rightarrow> dev \<Rightarrow> 'v session \<Rightarrow> (exn + fd list) \<times> 'v session" where
  "dev_open env d s =
     (if d = Raw then
        (let p = parent (d_raw s); r = open_dev env p (calls s)
         in (r, s\<lparr>calls := calls s @ [Open p r, Open Raw r]\<rparr>))
      else
        (let r = open_dev env d (calls s)
         in (r, s\<lparr>calls := calls s @ [Open d r]\<rparr>)))"

text \<open>
  \<open>SelectivePasshtrough.close\<close> is \<open>return super().close(exit)\<close>: the only call is the
  one on the base class.
\<close>

definition dev_close ::
  "'v env \<Rightarrow> dev \<Rightarrow> bool \<Rightarrow> 'v session \<Rightarrow> (exn + bool) \<times> 'v session" where
  "dev_close env d exit s =
     (if d = Raw then
        (let r = producer_close env exit
         in (r, s\<lparr>calls := calls s @ [Close Raw exit r]\<rparr>))
      else
        (let r = close_dev env d exit (calls s)
         in (r, s\<lparr>calls := calls s @ [Close d exit r]\<rparr>)))"

definition dev_produce ::
  "'v env \<Rightarrow> dev \<Rightarrow> fd list \<Rightarrow> 'v session \<Rightarrow> (exn + 'v event list) \<times> 'v session" where
  "dev_produce env d r s =
     (if d = Raw then
        (let p = parent (d_raw s) in
         case produce_dev env p r (calls s) of
           Inl e \<Rightarrow> (Inl e, s\<lparr>calls := calls s @ [Produce p r (Inl e), Produce Raw r (Inl e)]\<rparr>)
         | Inr evs \<Rightarrow>
             (case produce (d_raw s) evs of (out, g') \<Rightarrow>
                (Inr out, s\<lparr>d_raw := g',
                   calls := calls s @ [Produce p r (Inr evs), Produce Raw r (Inr out)]\<rparr>)))
      else
        (let b = produce_dev env d r (calls s)
         in (b, s\<lparr>calls := calls s @ [Produce d r b]\<rparr>)))"

text \<open>\<open>SelectivePasshtrough.consume\<close> is \<open>return self.parent.consume(events)\<close>.\<close>

definition dev_consume ::
  "'v env \<Rightarrow> dev \<Rightarrow> 'v event list \<Rightarrow> 'v session \<Rightarrow> exn option \<times> 'v session" where
  "dev_consume env d events s =
     (if d = Raw then
        (let p = parent (d_raw s); r = consume_dev env p events (calls s)
         in (r, s\<lparr>calls := calls s @ [Consume p events r, Consume Raw events r]\<rparr>))
      else
        (let r = consume_dev env d events (calls s)
         in (r, s\<lparr>calls := calls s @ [Consume d events r]\<rparr>)))"

subsection \<open>Registration\<close>

text \<open>
  \<open>prepare(m)\<close>: when \<open>m.open()\<close> raises, nothing is registered; otherwise \<open>m\<close> is
  appended to \<open>devs\<close>, its handles to \<open>fds\<close>, and each handle is mapped to \<open>m\<close>.
\<close>

definition prepare :: "'v env \<Rightarrow> dev \<Rightarrow> 'v session \<Rightarrow> exn option \<times> 'v session" where
  "prepare env m s =
     (case dev_open env m s of
        (Inl e, s') \<Rightarrow> (Some e, s')
      | (Inr fs, s') \<Rightarrow>
          (None, s'\<lparr>devs := devs s' @ [m], fds := fds s' @ fs,
                    fd_to_dev := fold (\<lambda>f m'. m'(f \<mapsto> m)) fs (fd_to_dev s')\<rparr>))"

fun prepare_all :: "'v env \<Rightarrow> dev list \<Rightarrow> 'v session \<Rightarrow> exn option \<times> 'v session" where
  "prepare_all env [] s = (None, s)"
| "prepare_all env (m # ms) s =
     (case prepare env m s of
        (Some e, s') \<Rightarrow> (Some e, s')
      | (None, s') \<Rightarrow> prepare_all env ms s')"

definition to_prepare :: "bool \<Rightarrow> bool \<Rightarrow> dev list" where
  "to_prepare accel gyro =
     [DS5] @ (if accel then [AccelImu] else []) @ (if gyro then [GyroImu] else [])
       @ [XInput, Shortcuts, Touch, Raw]"

subsection \<open>One iteration of the report loop\<close>

text \<open>
  \<open>for f in r: to_run.add(id(fd_to_dev[f]))\<close>; a handle that is not a key of the
  dictionary raises \<open>KeyError\<close>.
\<close>

fun to_run_of :: "(fd \<rightharpoonup> dev) \<Rightarrow> fd list \<Rightarrow> dev set \<Rightarrow> exn + dev set" where
  "to_run_of f2d [] to_run = Inr to_run"
| "to_run_of f2d (f # r) to_run =
     (case f2d f of
        None \<Rightarrow> Inl (Exception ''KeyError'')
      | Some d \<Rightarrow> to_run_of f2d r (insert d to_run))"

text \<open>\<open>for d in devs: if id(d) in to_run: evs.extend(d.produce(r))\<close>\<close>

fun run_producers ::
  "'v env \<Rightarrow> dev set \<Rightarrow> fd list \<Rightarrow> dev list \<Rightarrow> 'v event list \<Rightarrow> 'v session
     \<Rightarrow> (exn + 'v event list) \<times> 'v session" where
  "run_producers env to_run r [] evs s = (Inr evs, s)"
| "run_producers env to_run r (d # ds) evs s =
     (if d \<in> to_run then
        (case dev_produce env d r s of
           (Inl e, s') \<Rightarrow> (Inl e, s')
         | (Inr b, s') \<Rightarrow> run_producers env to_run r ds (evs @ b) s')
      else run_producers env to_run r ds evs s)"

text \<open>
  \<open>d_ds5.consume(evs); d_xinput.consume(evs); d_raw.consume(evs)\<close>: the first call
  that raises ends the sequence.
\<close>

fun consume_all :: "'v env \<Rightarrow> dev list \<Rightarrow> 'v event list \<Rightarrow> 'v session \<Rightarrow> exn option \<times> 'v session" where
  "consume_all env [] evs s = (None, s)"
| "consume_all env (d # ds) evs s =
     (case dev_consume env d evs s of
        (Some e, s') \<Rightarrow> (Some e, s')
      | (None, s') \<Rightarrow> consume_all env ds evs s')"

text \<open>
  The body of \<open>while True\<close>. The pacing at its end reads the clock and sleeps; it calls
  no device and is left out. The debug print is left out as well.
\<close>

definition iteration :: "'v env \<Rightarrow> 'v session \<Rightarrow> exn option \<times> 'v session" where
  "iteration env s =
     (let sel = select env (fds s) (calls s);
          s1 = s\<lparr>calls := calls s @ [Select (fds s) sel]\<rparr>
      in case sel of
           Inl e \<Rightarrow> (Some e, s1)
         | Inr r \<Rightarrow>
             (case to_run_of (fd_to_dev s1) r {} of
                Inl e \<Rightarrow> (Some e, s1)
              | Inr to_run \<Rightarrow>
                  (case run_producers env to_run r (devs s1) [] s1 of
                     (Inl e, s2) \<Rightarrow> (Some e, s2)
                   | (Inr evs, s2) \<Rightarrow>
                       if evs \<noteq> [] then consume_all env [DS5, XInput, Raw] (process env evs) s2
                       else (None, s2))))"

text \<open>
  \<open>while True\<close> ends only by an exception. The number \<open>n\<close> bounds the iterations that
  are followed; the answer \<open>None\<close> means that the loop is still running after them.
\<close>

fun loop :: "'v env \<Rightarrow> nat \<Rightarrow> 'v session \<Rightarrow> exn option \<times> 'v session" where
  "loop env 0 s = (None, s)"
| "loop env (Suc n) s =
     (case iteration env s of
        (Some e, s') \<Rightarrow> (Some e, s')
      | (None, s') \<Rightarrow> loop env n s')"

text \<open>The \<open>try\<close> block: the registrations, then the loop.\<close>

definition try_block ::
  "'v env \<Rightarrow> bool \<Rightarrow> bool \<Rightarrow> nat \<Rightarrow> 'v session \<Rightarrow> exn option \<times> 'v session" where
  "try_block env accel gyro n s =
     (case prepare_all env (to_prepare accel gyro) s of
        (Some e, s') \<Rightarrow> (Some e, s')
      | (None, s') \<Rightarrow> loop env n s')"

text \<open>
  The \<open>finally\<close> block: \<open>for d in devs: d.close(True)\<close>. A call of \<open>close\<close> that
  raises ends the block: the devices after it are not closed.
\<close>

fun close_all :: "'v env \<Rightarrow> dev list \<Rightarrow> 'v session \<Rightarrow> exn option \<times> 'v session" where
  "close_all env [] s = (None, s)"
| "close_all env (d # ds) s =
     (case dev_close env d True s of
        (Inl e, s') \<Rightarrow> (Some e, s')
      | (Inr ok, s') \<Rightarrow> close_all env ds s')"

text \<open>
  \<open>controller_loop_xinput\<close> from the \<open>try\<close> on. \<open>pt\<close> is the default of the parameter
  \<open>passthrough\<close>, a constant of the package that the module imports. The clause
  \<open>except KeyboardInterrupt: raise\<close> raises the exception again, so every exception
  of the \<open>try\<close> block leaves the function once the \<open>finally\<close> block has run, unless
  the \<open>finally\<close> block raises itself: then its exception takes the place of the one
  in flight. Without an exception the function has not returned within the \<open>n\<close>
  iterations and nothing is closed yet.
\<close>

definition new_session :: "string list \<Rightarrow> 'v call list \<Rightarrow> 'v session" where
  "new_session pt cs =
     \<lparr>fds = [], devs = [], fd_to_dev = Map.empty,
      d_raw = init_gate RawHid [''share'', ''mode''] pt, calls = cs\<rparr>"

definition controller_loop_xinput ::
  "'v env \<Rightarrow> bool \<Rightarrow> bool \<Rightarrow> string list \<Rightarrow> nat \<Rightarrow> 'v call list \<Rightarrow> exn option \<times> 'v session" where
  "controller_loop_xinput env accel gyro pt n cs =
     (case try_block env accel gyro n (new_session pt cs) of
        (Some e, s) \<Rightarrow>
          (case close_all env (devs s) s of
             (Some e', s') \<Rightarrow> (Some e', s')
           | (None, s') \<Rightarrow> (Some e, s'))
      | (None, s) \<Rightarrow> (None, s))"

section \<open>The supervisor\<close>









section \<open>Reading the list of calls\<close>

text \<open>
  The devices among \<open>ds\<close> on which \<open>produce\<close> was called, in the order of the calls,
  and the batches that those calls returned.
\<close>

fun produce_calls :: "dev list \<Rightarrow> 'v call list \<Rightarrow> dev list" where
  "produce_calls ds [] = []"
| "produce_calls ds (Produce d r res # cs) =
     (if d \<in> set ds then d # produce_calls ds cs else produce_calls ds cs)"
| "produce_calls ds (c # cs) = produce_calls ds cs"

fun batches :: "dev list \<Rightarrow> 'v call list \<Rightarrow> 'v event list list" where
  "batches ds [] = []"
| "batches ds (Produce d r (Inr b) # cs) =
     (if d \<in> set ds then b # batches ds cs else batches ds cs)"
| "batches ds (c # cs) = batches ds cs"

text \<open>The handles that \<open>open\<close> returned for the device \<open>d\<close>.\<close>

fun opened :: "dev \<Rightarrow> 'v call list \<Rightarrow> fd list" where
  "opened d [] = []"
| "opened d (Open d' (Inr fs) # cs) = (if d' = d then fs @ opened d cs else opened d cs)"
| "opened d (c # cs) = opened d cs"

text \<open>The calls of \<open>consume\<close>: the device and the batch it was given.\<close>

fun consumed :: "'v call list \<Rightarrow> (dev \<times> 'v event list) list" where
  "consumed [] = []"
| "consumed (Consume d b res # cs) = (d, b) # consumed cs"
| "consumed (c # cs) = consumed cs"

text \<open>The number of calls of \<open>select\<close> so far.\<close>

fun selects :: "'v call list \<Rightarrow> nat" where
  "selects [] = 0"
| "selects (Select fs r # cs) = Suc (selects cs)"
| "selects (c # cs) = selects cs"

subsection \<open>Concrete environments\<close>

text \<open>
  In all of them the enumeration finds the controller in xinput mode, the multiplexer
  changes nothing and, unless said otherwise, every device opens with one handle of its
  own, every call of \<open>close\<close> succeeds and no wait of the supervisor is interrupted.
  \<^item> \<open>idle_env\<close>: no handle is ever ready; the first wait of the loop runs into its
    timeout and the second one is interrupted by the user.
  \<^item> \<open>busy_env\<close>: the handles of the touchpad and of the raw interface are ready at
    the first wait, the raw interface reports a press of \<open>mode\<close> and of the button
    \<open>a\<close>, and the virtual controller fails to consume; the next session is interrupted
    at its first wait.
  \<^item> \<open>steady_env\<close>: as \<open>busy_env\<close>, but the touchpad opens with two handles, both
    ready at the first wait, and every \<open>consume\<close> succeeds.
  \<^item> \<open>faulty_env\<close>: the user interrupts the first wait of the loop, and \<open>close\<close> of
    the virtual controller raises; the user interrupts the second enumeration.
\<close>

fun handle_of :: "dev \<Rightarrow> fd" where
  "handle_of DS5 = 3"
| "handle_of AccelImu = 4"
| "handle_of GyroImu = 5"
| "handle_of XInput = 6"
| "handle_of Shortcuts = 7"
| "handle_of Touch = 8"
| "handle_of RawHid = 9"
| "handle_of Raw = 9"

definition idle_env :: "int env" where
  "idle_env =
     \<lparr>open_dev = (\<lambda>d cs. Inr [handle_of d]),
      close_dev = (\<lambda>d exit cs. Inr True),
      produce_dev = (\<lambda>d r cs. Inr []),
      consume_dev = (\<lambda>d evs cs. None),
      select = (\<lambda>fs cs. if selects cs = 0 then Inr [] else Inl KeyboardInterrupt),
      process = (\<lambda>evs. evs),
      producer_close = (\<lambda>exit. Inr False),
      enumerate_unique = (\<lambda>cs. Inr [0x6182]),
      sleep = (\<lambda>n cs. None)\<rparr>"

definition busy_env :: "int env" where
  "busy_env =
     \<lparr>open_dev = (\<lambda>d cs. Inr [handle_of d]),
      close_dev = (\<lambda>d exit cs. Inr True),
      produce_dev = (\<lambda>d r cs.
         if d = RawHid then Inr [Button ''mode'' (Some True), Button ''a'' (Some True)]
         else if d = Touch then Inr [Axis ''touchpad_x'' 5]
         else Inr []),
      consume_dev = (\<lambda>d evs cs. if d = DS5 then Some (Exception ''OSError'') else None),
      select = (\<lambda>fs cs. if selects cs = 0 then Inr [9, 8] else Inl KeyboardInterrupt),
      process = (\<lambda>evs. evs),
      producer_close = (\<lambda>exit. Inr False),
      enumerate_unique = (\<lambda>cs. Inr [0x6182]),
      sleep = (\<lambda>n cs. None)\<rparr>"

definition steady_env :: "int env" where
  "steady_env =
     busy_env\<lparr>open_dev := (\<lambda>d cs. if d = Touch then Inr [8, 10] else Inr [handle_of d]),
               consume_dev := (\<lambda>d evs cs. None),
               select := (\<lambda>fs cs. if selects cs = 0 then Inr [10, 9, 8]
                                   else Inl KeyboardInterrupt)\<rparr>"


text \<open>The state of a session when the registrations are done.\<close>

definition idle_session :: "int session" where
  "idle_session =
     snd (prepare_all idle_env (to_prepare True True) (new_session [''mode'', ''share''] []))"

definition steady_session :: "int session" where
  "steady_session =
     snd (prepare_all steady_env (to_prepare True False) (new_session [''mode'', ''share''] []))"

section \<open>Properties of the selective passthrough\<close>

subsection \<open>What one scan computes\<close>

lemma set_state_fields [simp]:
  "passthrough (set_state g ev) = passthrough g"
  "forward_buttons (set_state g ev) = forward_buttons g"
  "to_disable (set_state g ev) = to_disable g"
  "parent (set_state g ev) = parent g"
  by (cases ev; simp)+

lemma scan_fields [simp]:
  "passthrough (fst (scan g out evs)) = passthrough g"
  "forward_buttons (fst (scan g out evs)) = forward_buttons g"
  "parent (fst (scan g out evs)) = parent g"
proof (induction evs arbitrary: g out)
  case Nil
  { case 1 show ?case by simp next case 2 show ?case by simp next case 3 show ?case by simp }
next
  case (Cons ev evs)
  { case 1 show ?case by (cases ev) (simp_all add: Cons.IH split: prod.splits)
  next case 2 show ?case by (cases ev) (simp_all add: Cons.IH split: prod.splits)
  next case 3 show ?case by (cases ev) (simp_all add: Cons.IH split: prod.splits) }
qed

lemma scan_out: "snd (scan g out evs) = out @ filter (is_kept (passthrough g)) evs"
proof (induction evs arbitrary: g out)
  case Nil
  show ?case by simp
next
  case (Cons ev evs)
  show ?case
    by (cases ev) (simp_all add: Cons.IH split: prod.splits)
qed

lemma scan_to_disable:
  "to_disable (fst (scan g out evs)) = to_disable g @ pressed_codes (passthrough g) evs"
proof (induction evs arbitrary: g out)
  case Nil
  show ?case by simp
next
  case (Cons ev evs)
  show ?case
    by (cases ev) (simp_all add: Cons.IH split: prod.splits)
qed

text \<open>The three branches of \<open>produce\<close>, with the result of the scan written out.\<close>

lemma produce_cases:
  "produce g evs =
     (if state (fst (scan g [] evs)) then (evs, fst (scan g [] evs))
      else if state g then
        (filter (is_kept (passthrough g)) evs
           @ map release (to_disable g @ pressed_codes (passthrough g) evs),
         (fst (scan g [] evs))\<lparr>to_disable := []\<rparr>)
      else (filter (is_kept (passthrough g)) evs, fst (scan g [] evs)))"
proof (cases "scan g [] evs")
  case (Pair g' out)
  with scan_out [of g "[]" evs] scan_to_disable [of g "[]" evs]
  show ?thesis by (simp add: produce_def Let_def)
qed

lemma produce_fields [simp]:
  "passthrough (snd (produce g evs)) = passthrough g"
  "forward_buttons (snd (produce g evs)) = forward_buttons g"
  "parent (snd (produce g evs)) = parent g"
  by (simp_all add: produce_cases)

subsection \<open>Bypass\<close>

text \<open>
  Claim C4. When \<open>state\<close> is true after the batch has been scanned, \<open>produce\<close> returns
  the batch of the parent as it is, whatever the allow-list holds, and the scan has
  still appended to \<open>to_disable\<close> the code of every pressed button outside the
  allow-list.
\<close>

theorem bypass_returns_batch:
  "state (snd (produce g evs)) \<Longrightarrow>
     fst (produce g evs) = evs \<and>
     to_disable (snd (produce g evs)) = to_disable g @ pressed_codes (passthrough g) evs"
  by (simp add: produce_cases scan_to_disable split: if_splits)

theorem bypass_returns_batch_witness:
  "state (snd (produce (init_gate RawHid [''share'', ''mode''] [''extra_l1''])
       [Button ''mode'' (Some True), Button ''a'' (Some True), Axis ''ls_x'' (3::int)]))
   \<and> fst (produce (init_gate RawHid [''share'', ''mode''] [''extra_l1''])
       [Button ''mode'' (Some True), Button ''a'' (Some True), Axis ''ls_x'' (3::int)])
     = [Button ''mode'' (Some True), Button ''a'' (Some True), Axis ''ls_x'' 3]
   \<and> to_disable (snd (produce (init_gate RawHid [''share'', ''mode''] [''extra_l1''])
       [Button ''mode'' (Some True), Button ''a'' (Some True), Axis ''ls_x'' (3::int)]))
     = [''mode'', ''a'']"
proof -
  have h: "state (snd (produce (init_gate RawHid [''share'', ''mode''] [''extra_l1''])
       [Button ''mode'' (Some True), Button ''a'' (Some True), Axis ''ls_x'' (3::int)]))"
    by (simp add: produce_def init_gate_def)
  from bypass_returns_batch [OF h] h show ?thesis
    by (simp add: init_gate_def)
qed

subsection \<open>Filtering\<close>

text \<open>
  The specification lets the filter keep the axis events whose code is in the allow-list.
  The chain of \<open>produce\<close> keeps an event outside the configuration events only when its
  type is \<open>button\<close>: an axis event is dropped even when its code is listed.
\<close>

theorem listed_axis_is_dropped:
  "\<not> (\<not> state (init_gate RawHid [''share'', ''mode''] [''ls_x''])
       \<and> \<not> state (snd (produce (init_gate RawHid [''share'', ''mode''] [''ls_x''])
                          [Axis ''ls_x'' (1::int)]))
       \<longrightarrow> fst (produce (init_gate RawHid [''share'', ''mode''] [''ls_x'']) [Axis ''ls_x'' (1::int)])
           = filter (spec_is_kept [''ls_x'']) [Axis ''ls_x'' 1])"
  by (simp add: produce_def init_gate_def)

text \<open>
  Claim C5, amended. When \<open>state\<close> is false before the batch and false after it,
  \<open>produce\<close> returns exactly the configuration events and the button events whose code
  is in the allow-list, in the order of the batch.
\<close>

theorem filtered_keeps_listed_buttons:
  "\<not> state g \<Longrightarrow> \<not> state (snd (produce g evs)) \<Longrightarrow>
     fst (produce g evs) = filter (is_kept (passthrough g)) evs"
  by (simp add: produce_cases split: if_splits)

theorem filtered_keeps_listed_buttons_witness:
  "\<not> state (init_gate RawHid [''share'', ''mode''] [''extra_l1''])
   \<and> \<not> state (snd (produce (init_gate RawHid [''share'', ''mode''] [''extra_l1''])
        [Button ''a'' (Some True), Configuration ''led'' (7::int), Axis ''ls_x'' 1,
         Button ''extra_l1'' (Some True)]))
   \<and> fst (produce (init_gate RawHid [''share'', ''mode''] [''extra_l1''])
        [Button ''a'' (Some True), Configuration ''led'' (7::int), Axis ''ls_x'' 1,
         Button ''extra_l1'' (Some True)])
     = [Configuration ''led'' 7, Button ''extra_l1'' (Some True)]"
proof -
  have h1: "\<not> state (init_gate RawHid [''share'', ''mode''] [''extra_l1''])"
    by (simp add: init_gate_def)
  have h2: "\<not> state (snd (produce (init_gate RawHid [''share'', ''mode''] [''extra_l1''])
        [Button ''a'' (Some True), Configuration ''led'' (7::int), Axis ''ls_x'' 1,
         Button ''extra_l1'' (Some True)]))"
    by (simp add: produce_def init_gate_def)
  from filtered_keeps_listed_buttons [OF h1 h2] h1 h2 show ?thesis
    by (simp add: init_gate_def)
qed

subsection \<open>What enters \<open>to_disable\<close>\<close>

lemma produce_all_Cons:
  "snd (produce_all g (b # bs)) = snd (produce_all (snd (produce g b)) bs)"
  "fst (produce_all g (b # bs)) = fst (produce g b) # fst (produce_all (snd (produce g b)) bs)"
  by (simp_all split: prod.splits)

lemma produce_all_passthrough [simp]: "passthrough (snd (produce_all g bs)) = passthrough g"
proof (induction bs arbitrary: g)
  case Nil
  show ?case by simp
next
  case (Cons b bs)
  have "passthrough (snd (produce g b)) = passthrough g" by simp
  with Cons.IH [of "snd (produce g b)"] show ?case
    by (simp add: produce_all_Cons del: produce_all.simps)
qed

lemma produce_all_append:
  "produce_all g (bs @ cs) =
     (fst (produce_all g bs) @ fst (produce_all (snd (produce_all g bs)) cs),
      snd (produce_all (snd (produce_all g bs)) cs))"
  by (induction bs arbitrary: g) (simp_all split: prod.splits)

lemma produce_to_disable_set:
  "set (to_disable (snd (produce g evs)))
     \<subseteq> set (to_disable g) \<union> set (pressed_codes (passthrough g) evs)"
  by (simp add: produce_cases scan_to_disable)

lemma pressed_codes_outside: "set (pressed_codes pt evs) \<inter> set pt = {}"
  by (induction pt evs rule: pressed_codes.induct) auto

lemma produce_all_outside:
  "set (to_disable g) \<inter> set (passthrough g) = {} \<Longrightarrow>
     set (to_disable (snd (produce_all g bs))) \<inter> set (passthrough g) = {}"
proof (induction bs arbitrary: g)
  case Nil
  then show ?case by simp
next
  case (Cons b bs)
  have "set (to_disable (snd (produce g b))) \<inter> set (passthrough g) = {}"
    using produce_to_disable_set [of g b] pressed_codes_outside [of "passthrough g" b] Cons.prems
    by blast
  with Cons.IH [of "snd (produce g b)"] show ?case
    by (simp add: produce_all_Cons del: produce_all.simps)
qed

text \<open>
  The specification keeps the modifier buttons out of the pending releases. The last
  branch of the chain does not look at \<open>forward_buttons\<close>: the press of a modifier that
  is not in the allow-list is recorded like any other press.
\<close>

theorem modifier_enters_to_disable:
  "''mode'' \<in> set (forward_buttons (init_gate RawHid [''share'', ''mode''] [''extra_l1'']))
   \<and> to_disable (snd (produce (init_gate RawHid [''share'', ''mode''] [''extra_l1''])
        [Button ''mode'' (Some True) :: int event])) = [''mode'']
   \<and> to_disable (snd (produce (init_gate RawHid [''share'', ''mode''] [''extra_l1''])
        [Button ''mode'' (Some True) :: int event]))
     \<noteq> to_disable (init_gate RawHid [''share'', ''mode''] [''extra_l1''])
         @ spec_pressed_codes [''share'', ''mode''] [''extra_l1'']
             [Button ''mode'' (Some True) :: int event]"
  by (simp add: produce_def init_gate_def)

text \<open>
  Claim C6, amended. In every state \<open>g\<close> that the object reaches from its construction,
  the scan of the next batch appends to \<open>to_disable\<close> exactly the codes of the button
  events whose value is true and whose code is not in the allow-list, modifier or not;
  \<open>to_disable\<close> holds only codes outside the allow-list; and it holds no modifier code
  when every modifier is in the allow-list.
\<close>

theorem to_disable_tracks_unlisted_presses:
  assumes "g = snd (produce_all (init_gate p fwd pt) bs)"
  shows "to_disable (fst (scan g [] evs)) = to_disable g @ pressed_codes pt evs
       \<and> set (to_disable g) \<inter> set pt = {}
       \<and> (set fwd \<subseteq> set pt \<longrightarrow> set (to_disable g) \<inter> set fwd = {})"
proof -
  have pt: "passthrough g = pt"
    unfolding assms by (simp add: init_gate_def)
  have "set (to_disable (init_gate p fwd pt)) \<inter> set (passthrough (init_gate p fwd pt)) = {}"
    by (simp add: init_gate_def)
  from produce_all_outside [OF this, of bs]
  have out: "set (to_disable g) \<inter> set pt = {}"
    unfolding assms by (simp add: init_gate_def)
  then have "set fwd \<subseteq> set pt \<longrightarrow> set (to_disable g) \<inter> set fwd = {}"
    by blast
  with out pt show ?thesis
    by (simp add: scan_to_disable)
qed

theorem to_disable_tracks_unlisted_presses_witness:
  "to_disable (fst (scan (snd (produce_all
        (init_gate RawHid [''share'', ''mode''] [''mode'', ''share'', ''extra_l1''])
        [[Button ''mode'' (Some True), Button ''a'' (Some True) :: int event]])) []
      [Button ''b'' (Some True), Button ''share'' (Some True), Button ''x'' None :: int event]))
     = [''a'', ''b'']
   \<and> set [''share'', ''mode''] \<subseteq> set [''mode'', ''share'', ''extra_l1'']
   \<and> set (to_disable (snd (produce_all
        (init_gate RawHid [''share'', ''mode''] [''mode'', ''share'', ''extra_l1''])
        [[Button ''mode'' (Some True), Button ''a'' (Some True) :: int event]])))
       \<inter> set [''share'', ''mode''] = {}"
proof -
  have sub: "set [''share'', ''mode''] \<subseteq> set [''mode'', ''share'', ''extra_l1'']"
    by simp
  have td: "to_disable (snd (produce_all
        (init_gate RawHid [''share'', ''mode''] [''mode'', ''share'', ''extra_l1''])
        [[Button ''mode'' (Some True), Button ''a'' (Some True) :: int event]])) = [''a'']"
    by (simp add: produce_def init_gate_def)
  from to_disable_tracks_unlisted_presses [OF refl,
      of RawHid "[''share'', ''mode'']" "[''mode'', ''share'', ''extra_l1'']"
         "[[Button ''mode'' (Some True), Button ''a'' (Some True) :: int event]]"
         "[Button ''b'' (Some True), Button ''share'' (Some True), Button ''x'' None]"]
    sub td
  show ?thesis by simp
qed

subsection \<open>The release of the modifier\<close>

lemma pending_kept_or_released:
  assumes "c \<in> set (to_disable g)"
  shows "c \<in> set (to_disable (snd (produce g b))) \<or> release c \<in> set (fst (produce g b))"
  using assms by (simp add: produce_cases scan_to_disable)

lemma press_in_pressed_codes:
  "Button c v \<in> set b \<Longrightarrow> get_value v \<Longrightarrow> c \<notin> set pt \<Longrightarrow> c \<in> set (pressed_codes pt b)"
  by (induction pt b rule: pressed_codes.induct) auto

lemma press_kept_or_released:
  assumes "Button c v \<in> set b" "get_value v" "c \<notin> set (passthrough g)"
  shows "c \<in> set (to_disable (snd (produce g b))) \<or> release c \<in> set (fst (produce g b))"
  using press_in_pressed_codes [OF assms] by (simp add: produce_cases scan_to_disable)

lemma pending_kept_or_released_all:
  "c \<in> set (to_disable g) \<Longrightarrow>
     c \<in> set (to_disable (snd (produce_all g bs)))
       \<or> release c \<in> set (concat (fst (produce_all g bs)))"
proof (induction bs arbitrary: g)
  case Nil
  then show ?case by simp
next
  case (Cons b bs)
  from pending_kept_or_released [OF Cons.prems, of b]
  show ?case
  proof
    assume "c \<in> set (to_disable (snd (produce g b)))"
    from Cons.IH [OF this] show ?thesis
      by (auto simp add: produce_all_Cons simp del: produce_all.simps)
  next
    assume "release c \<in> set (fst (produce g b))"
    then show ?thesis
      by (simp add: produce_all_Cons del: produce_all.simps)
  qed
qed

lemma press_kept_or_released_all:
  "i < length bs \<Longrightarrow> Button c v \<in> set (bs ! i) \<Longrightarrow> get_value v \<Longrightarrow>
   c \<notin> set (passthrough g) \<Longrightarrow>
     c \<in> set (to_disable (snd (produce_all g bs)))
       \<or> release c \<in> set (concat (drop i (fst (produce_all g bs))))"
proof (induction bs arbitrary: g i)
  case Nil
  then show ?case by simp
next
  case (Cons b bs)
  show ?case
  proof (cases i)
    case 0
    with Cons.prems have "Button c v \<in> set b" by simp
    from press_kept_or_released [OF this Cons.prems(3,4)]
    show ?thesis
    proof
      assume "c \<in> set (to_disable (snd (produce g b)))"
      from pending_kept_or_released_all [OF this, of bs] 0 show ?thesis
        by (auto simp add: produce_all_Cons simp del: produce_all.simps)
    next
      assume "release c \<in> set (fst (produce g b))"
      with 0 show ?thesis
        by (simp add: produce_all_Cons del: produce_all.simps)
    qed
  next
    case (Suc j)
    with Cons.prems have j: "j < length bs" "Button c v \<in> set (bs ! j)" by simp_all
    have "c \<notin> set (passthrough (snd (produce g b)))" using Cons.prems(4) by simp
    from Cons.IH [OF j Cons.prems(3) this] Suc show ?thesis
      by (simp add: produce_all_Cons del: produce_all.simps)
  qed
qed

text \<open>
  Claim C1. Let the object have received the batches \<open>bs\<close>, let \<open>state\<close> be true before
  the batch \<open>b\<close> and false after it. Then the batch returned for \<open>b\<close> is the accumulator
  \<open>out\<close> of the scan followed by one button event with value false for each code of
  \<open>to_disable\<close>, in the order of the list, and \<open>to_disable\<close> is empty afterwards. So for
  every press of a button outside the allow-list in one of the batches, the batches
  returned from that call up to the one for \<open>b\<close> contain a release of the same code.
\<close>

theorem transition_releases_pending:
  assumes "produce_all g bs = (outs, g1)" and "state g1"
    and "produce g1 b = (out, g2)" and "\<not> state g2"
  shows "out = snd (scan g1 [] b) @ map release (to_disable (fst (scan g1 [] b)))
       \<and> to_disable g2 = []
       \<and> (\<forall>i < length (bs @ [b]). \<forall>c v.
            Button c v \<in> set ((bs @ [b]) ! i) \<and> get_value v \<and> c \<notin> set (passthrough g)
              \<longrightarrow> release c \<in> set (concat (drop i (outs @ [out]))))"
proof -
  have st: "\<not> state (fst (scan g1 [] b))"
    using assms(3,4) by (auto simp add: produce_cases split: if_splits)
  have out: "out = snd (scan g1 [] b) @ map release (to_disable (fst (scan g1 [] b)))"
    and g2: "to_disable g2 = []"
    using assms(2,3) st by (auto simp add: produce_cases scan_out scan_to_disable)
  have all: "produce_all g (bs @ [b]) = (outs @ [out], g2)"
    using assms(1,3) by (simp add: produce_all_append)
  have "release c \<in> set (concat (drop i (outs @ [out])))"
    if "i < length (bs @ [b])" "Button c v \<in> set ((bs @ [b]) ! i)" "get_value v"
       "c \<notin> set (passthrough g)" for i c v
    using press_kept_or_released_all [OF that] all g2 by simp
  with out g2 show ?thesis by blast
qed

theorem transition_releases_pending_witness:
  "produce_all (init_gate RawHid [''share'', ''mode''] [''extra_l1''])
      [[Button ''mode'' (Some True), Button ''a'' (Some True) :: int event]]
     = ([[Button ''mode'' (Some True), Button ''a'' (Some True)]],
        \<lparr>parent = RawHid, state = True, forward_buttons = [''share'', ''mode''],
         passthrough = [''extra_l1''], to_disable = [''mode'', ''a'']\<rparr>)
   \<and> produce \<lparr>parent = RawHid, state = True, forward_buttons = [''share'', ''mode''],
         passthrough = [''extra_l1''], to_disable = [''mode'', ''a'']\<rparr>
        [Button ''mode'' (Some False), Button ''extra_l1'' (Some True)]
     = ([Button ''extra_l1'' (Some True), Button ''mode'' (Some False),
         Button ''a'' (Some False) :: int event],
        \<lparr>parent = RawHid, state = False, forward_buttons = [''share'', ''mode''],
         passthrough = [''extra_l1''], to_disable = []\<rparr>)
   \<and> (release ''a'' :: int event) \<in> set (concat (drop 0
        ([[Button ''mode'' (Some True), Button ''a'' (Some True)]]
          @ [[Button ''extra_l1'' (Some True), Button ''mode'' (Some False),
              Button ''a'' (Some False)]])))"
proof -
  let ?g = "init_gate RawHid [''share'', ''mode''] [''extra_l1'']"
  let ?g1 = "\<lparr>parent = RawHid, state = True, forward_buttons = [''share'', ''mode''],
         passthrough = [''extra_l1''], to_disable = [''mode'', ''a'']\<rparr>"
  let ?g2 = "\<lparr>parent = RawHid, state = False, forward_buttons = [''share'', ''mode''],
         passthrough = [''extra_l1''], to_disable = []\<rparr>"
  let ?b1 = "[Button ''mode'' (Some True), Button ''a'' (Some True) :: int event]"
  let ?b = "[Button ''mode'' (Some False), Button ''extra_l1'' (Some True) :: int event]"
  let ?out = "[Button ''extra_l1'' (Some True), Button ''mode'' (Some False),
         Button ''a'' (Some False) :: int event]"
  have h1: "produce_all ?g [?b1] = ([?b1], ?g1)"
    by (simp add: produce_def init_gate_def)
  have h2: "state ?g1" by simp
  have h3: "produce ?g1 ?b = (?out, ?g2)"
    by (simp add: produce_def release_def)
  have h4: "\<not> state ?g2" by simp
  from transition_releases_pending [OF h1 h2 h3 h4]
  have every: "\<forall>i < length ([?b1] @ [?b]). \<forall>c v.
            Button c v \<in> set (([?b1] @ [?b]) ! i) \<and> get_value v \<and> c \<notin> set (passthrough ?g)
              \<longrightarrow> release c \<in> set (concat (drop i ([?b1] @ [?out])))"
    by blast
  have "(release ''a'' :: int event) \<in> set (concat (drop 0 ([?b1] @ [?out])))"
    by (rule every [rule_format, of 0 "''a''" "Some True"]) (simp_all add: init_gate_def)
  with h1 h3 show ?thesis by simp
qed

subsection \<open>Repeated presses\<close>

lemma pressed_codes_append:
  "pressed_codes pt (xs @ ys) = pressed_codes pt xs @ pressed_codes pt ys"
  by (induction pt xs rule: pressed_codes.induct) auto

lemma count_pressed_codes:
  "c \<notin> set pt \<Longrightarrow> count_list (pressed_codes pt evs) c = length (filter (is_press c) evs)"
  by (induction pt evs rule: pressed_codes.induct) auto

lemma no_transition_to_disable:
  "no_transition g bs \<Longrightarrow>
     to_disable (snd (produce_all g bs)) = to_disable g @ pressed_codes (passthrough g) (concat bs)"
proof (induction bs arbitrary: g)
  case Nil
  show ?case by simp
next
  case (Cons b bs)
  from Cons.prems have nt: "\<not> (state g \<and> \<not> state (snd (produce g b)))"
    and rest: "no_transition (snd (produce g b)) bs"
    by (simp_all split: prod.splits)
  from nt have "to_disable (snd (produce g b)) = to_disable g @ pressed_codes (passthrough g) b"
    by (auto simp add: produce_cases scan_to_disable split: if_splits)
  with Cons.IH [OF rest] show ?case
    by (simp add: produce_all_Cons pressed_codes_append del: produce_all.simps)
qed

lemma count_release_map: "count_list (map release xs) (release c) = count_list xs c"
  by (induction xs) (simp_all add: release_def)

lemma count_release_kept:
  "c \<notin> set pt \<Longrightarrow> count_list (filter (is_kept pt) evs) (release c) = 0"
proof (induction evs)
  case Nil
  show ?case by simp
next
  case (Cons ev evs)
  then show ?case by (cases ev) (auto simp add: release_def)
qed

text \<open>
  Claim C10. \<open>to_disable\<close> is a list. Start with it empty and let the batches \<open>bs\<close>
  pass without a call in which \<open>state\<close> goes from true to false. Then a code \<open>c\<close>
  outside the allow-list occurs in \<open>to_disable\<close> as many times as it was pressed in
  \<open>bs\<close>, and the batch returned when \<open>state\<close> then goes from true to false holds one
  release of \<open>c\<close> for each press of \<open>c\<close>, those of the last batch included.
\<close>

theorem repeated_press_repeated_release:
  assumes "to_disable g = []" and "c \<notin> set (passthrough g)"
    and "no_transition g bs" and "produce_all g bs = (outs, g1)"
    and "state g1" and "produce g1 b = (out, g2)" and "\<not> state g2"
  shows "count_list (to_disable g1) c = length (filter (is_press c) (concat bs))
       \<and> count_list out (release c) = length (filter (is_press c) (concat (bs @ [b])))"
proof -
  have pt: "passthrough g1 = passthrough g"
    using assms(4) produce_all_passthrough [of g bs] by simp
  have td: "to_disable g1 = pressed_codes (passthrough g) (concat bs)"
    using no_transition_to_disable [OF assms(3)] assms(1,4) by simp
  have st: "\<not> state (fst (scan g1 [] b))"
    using assms(6,7) by (auto simp add: produce_cases split: if_splits)
  have out: "out = filter (is_kept (passthrough g)) b
               @ map release (to_disable g1 @ pressed_codes (passthrough g) b)"
    using assms(5,6) st pt by (auto simp add: produce_cases)
  have "count_list out (release c)
          = count_list (to_disable g1) c + count_list (pressed_codes (passthrough g) b) c"
    unfolding out
    by (simp add: count_release_kept [OF assms(2)] count_release_map
          del: map_append flip: map_append)
  then show ?thesis
    by (simp add: td count_pressed_codes [OF assms(2)])
qed

theorem repeated_press_repeated_release_witness:
  "count_list (to_disable \<lparr>parent = RawHid, state = True, forward_buttons = [''share'', ''mode''],
         passthrough = [''extra_l1''], to_disable = [''mode'', ''a'', ''a'']\<rparr>) ''a'' = 2
   \<and> count_list [Button ''mode'' (Some False), Button ''a'' (Some False),
         Button ''a'' (Some False) :: int event] (release ''a'') = 2"
proof -
  let ?g = "init_gate RawHid [''share'', ''mode''] [''extra_l1'']"
  let ?g1 = "\<lparr>parent = RawHid, state = True, forward_buttons = [''share'', ''mode''],
         passthrough = [''extra_l1''], to_disable = [''mode'', ''a'', ''a'']\<rparr>"
  let ?g2 = "\<lparr>parent = RawHid, state = False, forward_buttons = [''share'', ''mode''],
         passthrough = [''extra_l1''], to_disable = []\<rparr>"
  let ?bs = "[[Button ''mode'' (Some True), Button ''a'' (Some True)],
              [Button ''a'' (Some False), Button ''a'' (Some True) :: int event]]"
  let ?b = "[Button ''mode'' (Some False) :: int event]"
  let ?out = "[Button ''mode'' (Some False), Button ''a'' (Some False),
         Button ''a'' (Some False) :: int event]"
  have h1: "to_disable ?g = []" by (simp add: init_gate_def)
  have h2: "''a'' \<notin> set (passthrough ?g)" by (simp add: init_gate_def)
  have h3: "no_transition ?g ?bs" by (simp add: produce_def init_gate_def)
  have h4: "produce_all ?g ?bs = (?bs, ?g1)" by (simp add: produce_def init_gate_def)
  have h5: "state ?g1" by simp
  have h6: "produce ?g1 ?b = (?out, ?g2)" by (simp add: produce_def release_def)
  have h7: "\<not> state ?g2" by simp
  from repeated_press_repeated_release [OF h1 h2 h3 h4 h5 h6 h7] show ?thesis
    by simp
qed

subsection \<open>The output direction\<close>

text \<open>
  Claim C9. \<open>consume\<close> of the passthrough hands the batch it receives, unchanged, to
  \<open>consume\<close> of its parent and returns what the parent returns. The object is the same
  afterwards, and neither the result nor the calls depend on \<open>state\<close> or on
  \<open>to_disable\<close>.
\<close>

theorem consume_forwards_unchanged:
  "dev_consume env Raw events s =
     (consume_dev env (parent (d_raw s)) events (calls s),
      s\<lparr>calls := calls s @
           [Consume (parent (d_raw s)) events (consume_dev env (parent (d_raw s)) events (calls s)),
            Consume Raw events (consume_dev env (parent (d_raw s)) events (calls s))]\<rparr>)
   \<and> d_raw (snd (dev_consume env Raw events s)) = d_raw s
   \<and> fst (dev_consume env Raw events (s\<lparr>d_raw := (d_raw s)\<lparr>state := h, to_disable := td\<rparr>\<rparr>))
       = fst (dev_consume env Raw events s)
   \<and> calls (snd (dev_consume env Raw events (s\<lparr>d_raw := (d_raw s)\<lparr>state := h, to_disable := td\<rparr>\<rparr>)))
       = calls (snd (dev_consume env Raw events s))"
  by (simp add: dev_consume_def Let_def)

section \<open>Properties of the session\<close>

subsection \<open>The readers of the list of calls\<close>

lemma produce_calls_append:
  "produce_calls ds (xs @ ys) = produce_calls ds xs @ produce_calls ds ys"
  by (induction ds xs rule: produce_calls.induct) simp_all

lemma batches_append: "batches ds (xs @ ys) = batches ds xs @ batches ds ys"
  by (induction ds xs rule: batches.induct) simp_all

lemma consumed_append: "consumed (xs @ ys) = consumed xs @ consumed ys"
  by (induction xs rule: consumed.induct) simp_all

lemma opened_append: "opened d (xs @ ys) = opened d xs @ opened d ys"
  by (induction d xs rule: opened.induct) simp_all

lemma to_run_of_Inr:
  "to_run_of f2d r acc = Inr tr \<Longrightarrow>
     tr = acc \<union> {d. \<exists>f\<in>set r. f2d f = Some d} \<and> set r \<subseteq> dom f2d"
  by (induction r arbitrary: acc) (auto split: option.splits)

subsection \<open>What the loop leaves unchanged\<close>

text \<open>
  No call of the loop changes \<open>fds\<close>, \<open>devs\<close> or \<open>fd_to_dev\<close>, and the passthrough
  keeps its parent.
\<close>

lemma dev_produce_frame:
  assumes "dev_produce env d r s = (res, s')"
  shows "fds s' = fds s \<and> devs s' = devs s \<and> fd_to_dev s' = fd_to_dev s
       \<and> parent (d_raw s') = parent (d_raw s)"
proof (cases "d = Raw")
  case False
  with assms show ?thesis by (auto simp add: dev_produce_def Let_def)
next
  case True
  show ?thesis
  proof (cases "produce_dev env (parent (d_raw s)) r (calls s)")
    case (Inl e)
    with True assms show ?thesis by (auto simp add: dev_produce_def Let_def)
  next
    case (Inr evs)
    obtain out g' where p: "produce (d_raw s) evs = (out, g')"
      by (cases "produce (d_raw s) evs")
    then have "parent g' = parent (d_raw s)"
      using produce_fields(3) [of "d_raw s" evs] by simp
    with True assms Inr p show ?thesis by (auto simp add: dev_produce_def Let_def)
  qed
qed

lemma run_producers_frame:
  "run_producers env tr r ds evs s = (res, s') \<Longrightarrow>
     fds s' = fds s \<and> devs s' = devs s \<and> fd_to_dev s' = fd_to_dev s
       \<and> parent (d_raw s') = parent (d_raw s)"
proof (induction ds arbitrary: evs s)
  case Nil
  then show ?case by simp
next
  case (Cons d ds)
  show ?case
  proof (cases "d \<in> tr")
    case False
    with Cons.prems Cons.IH show ?thesis by simp
  next
    case True
    obtain res1 s1 where dp: "dev_produce env d r s = (res1, s1)"
      by (cases "dev_produce env d r s")
    note fr = dev_produce_frame [OF dp]
    show ?thesis
    proof (cases res1)
      case (Inl e)
      with True Cons.prems dp fr show ?thesis by simp
    next
      case (Inr b)
      with True Cons.prems dp have "run_producers env tr r ds (evs @ b) s1 = (res, s')"
        by simp
      from Cons.IH [OF this] fr show ?thesis by simp
    qed
  qed
qed

lemma dev_consume_frame:
  assumes "dev_consume env d b s = (res, s')"
  shows "fds s' = fds s \<and> devs s' = devs s \<and> fd_to_dev s' = fd_to_dev s \<and> d_raw s' = d_raw s"
  using assms by (auto simp add: dev_consume_def Let_def split: if_splits)

lemma consume_all_frame:
  "consume_all env ds b s = (res, s') \<Longrightarrow>
     fds s' = fds s \<and> devs s' = devs s \<and> fd_to_dev s' = fd_to_dev s \<and> d_raw s' = d_raw s"
proof (induction ds arbitrary: s)
  case Nil
  then show ?case by simp
next
  case (Cons d ds)
  obtain res1 s1 where dc: "dev_consume env d b s = (res1, s1)"
    by (cases "dev_consume env d b s")
  note fr = dev_consume_frame [OF dc]
  show ?case
  proof (cases res1)
    case None
    with Cons.prems dc have "consume_all env ds b s1 = (res, s')" by simp
    from Cons.IH [OF this] fr show ?thesis by simp
  next
    case (Some e)
    with Cons.prems dc fr show ?thesis by simp
  qed
qed

lemma iteration_frame:
  assumes "iteration env s = (res, s')"
  shows "fds s' = fds s \<and> devs s' = devs s \<and> fd_to_dev s' = fd_to_dev s
       \<and> parent (d_raw s') = parent (d_raw s)"
proof -
  let ?sel = "select env (fds s) (calls s)"
  let ?s1 = "s\<lparr>calls := calls s @ [Select (fds s) ?sel]\<rparr>"
  show ?thesis
  proof (cases ?sel)
    case (Inl e)
    with assms show ?thesis by (auto simp add: iteration_def Let_def)
  next
    case (Inr r)
    show ?thesis
    proof (cases "to_run_of (fd_to_dev s) r {}")
      case (Inl e)
      with Inr assms show ?thesis by (auto simp add: iteration_def Let_def)
    next
      case tr: (Inr to_run)
      obtain res2 s2 where rp: "run_producers env to_run r (devs s) [] ?s1 = (res2, s2)"
        by (cases "run_producers env to_run r (devs s) [] ?s1")
      from run_producers_frame [OF rp]
      have fr: "fds s2 = fds s \<and> devs s2 = devs s \<and> fd_to_dev s2 = fd_to_dev s
         \<and> parent (d_raw s2) = parent (d_raw s)" by simp
      show ?thesis
      proof (cases res2)
        case (Inl e)
        with Inr tr rp assms fr show ?thesis by (auto simp add: iteration_def Let_def)
      next
        case evs: (Inr evs)
        show ?thesis
        proof (cases "evs = []")
          case True
          with Inr tr rp evs assms fr show ?thesis by (auto simp add: iteration_def Let_def)
        next
          case False
          with Inr tr rp evs assms
          have "consume_all env [DS5, XInput, Raw] (process env evs) s2 = (res, s')"
            by (auto simp add: iteration_def Let_def)
          from consume_all_frame [OF this] fr show ?thesis by simp
        qed
      qed
    qed
  qed
qed

lemma loop_frame:
  "loop env j s = (res, s') \<Longrightarrow>
     fds s' = fds s \<and> devs s' = devs s \<and> fd_to_dev s' = fd_to_dev s
       \<and> parent (d_raw s') = parent (d_raw s)"
proof (induction j arbitrary: s)
  case 0
  then show ?case by simp
next
  case (Suc j)
  obtain res1 s1 where it: "iteration env s = (res1, s1)"
    by (cases "iteration env s")
  note fr = iteration_frame [OF it]
  show ?case
  proof (cases res1)
    case None
    with Suc.prems it have "loop env j s1 = (res, s')" by simp
    from Suc.IH [OF this] fr show ?thesis by simp
  next
    case (Some e)
    with Suc.prems it fr show ?thesis by simp
  qed
qed

subsection \<open>What the registrations establish\<close>

text \<open>
  After \<open>prepare\<close> has registered distinct devices, none of them the parent of the
  passthrough, and as long as no handle was returned twice, \<open>fd_to_dev\<close> maps a handle
  to a device exactly when the device is registered and its \<open>open\<close> returned the handle;
  the keys of \<open>fd_to_dev\<close> are the handles of \<open>fds\<close>.
\<close>

lemma fold_register:
  "fold (\<lambda>f m'. m'(f \<mapsto> m)) fs f2d = (\<lambda>f. if f \<in> set fs then Some m else f2d f)"
  by (induction fs arbitrary: f2d) (auto simp add: fun_eq_iff)

lemma prepare_None_ex:
  assumes "prepare env m s = (None, s1)"
  shows "\<exists>fs. devs s1 = devs s @ [m] \<and> fds s1 = fds s @ fs
    \<and> fd_to_dev s1 = (\<lambda>f. if f \<in> set fs then Some m else fd_to_dev s f)
    \<and> d_raw s1 = d_raw s
    \<and> calls s1 = calls s @ (if m = Raw then [Open (parent (d_raw s)) (Inr fs), Open Raw (Inr fs)]
                                else [Open m (Inr fs)])"
proof (cases "m = Raw")
  case True
  show ?thesis
  proof (cases "open_dev env (parent (d_raw s)) (calls s)")
    case (Inl e)
    with True assms show ?thesis by (simp add: prepare_def dev_open_def Let_def)
  next
    case (Inr fs)
    with True assms show ?thesis
      by (intro exI [of _ fs]) (auto simp add: prepare_def dev_open_def Let_def fold_register)
  qed
next
  case False
  show ?thesis
  proof (cases "open_dev env m (calls s)")
    case (Inl e)
    with False assms show ?thesis by (simp add: prepare_def dev_open_def Let_def)
  next
    case (Inr fs)
    with False assms show ?thesis
      by (intro exI [of _ fs]) (auto simp add: prepare_def dev_open_def Let_def fold_register)
  qed
qed

lemma prepare_None:
  assumes "prepare env m s = (None, s1)"
  obtains fs where "devs s1 = devs s @ [m]" and "fds s1 = fds s @ fs"
    and "fd_to_dev s1 = (\<lambda>f. if f \<in> set fs then Some m else fd_to_dev s f)"
    and "d_raw s1 = d_raw s"
    and "calls s1 = calls s @ (if m = Raw then [Open (parent (d_raw s)) (Inr fs), Open Raw (Inr fs)]
                                else [Open m (Inr fs)])"
  using prepare_None_ex [OF assms] by blast

lemma prepare_step:
  assumes p: "prepare env m s = (None, s1)"
    and cs: "calls s = cs @ nc"
    and I1: "dom (fd_to_dev s) = set (fds s)"
    and I2: "\<forall>f d. fd_to_dev s f = Some d \<longleftrightarrow> d \<in> set (devs s) \<and> f \<in> set (opened d nc)"
    and I3: "\<forall>d. opened d nc \<noteq> [] \<longrightarrow> d \<in> set (devs s) \<or> d = parent (d_raw s)"
    and m: "m \<notin> set (devs s)" "m \<noteq> parent (d_raw s)"
    and par: "parent (d_raw s) \<notin> set (devs s)"
    and dist: "distinct (fds s1)"
  shows "\<exists>nc1. calls s1 = cs @ nc1 \<and> dom (fd_to_dev s1) = set (fds s1)
          \<and> (\<forall>f d. fd_to_dev s1 f = Some d \<longleftrightarrow> d \<in> set (devs s1) \<and> f \<in> set (opened d nc1))
          \<and> (\<forall>d. opened d nc1 \<noteq> [] \<longrightarrow> d \<in> set (devs s1) \<or> d = parent (d_raw s1))"
proof -
  from prepare_None [OF p] obtain fs where
    s1: "devs s1 = devs s @ [m]" "fds s1 = fds s @ fs"
      "fd_to_dev s1 = (\<lambda>f. if f \<in> set fs then Some m else fd_to_dev s f)"
      "d_raw s1 = d_raw s"
      "calls s1 = calls s @ (if m = Raw then [Open (parent (d_raw s)) (Inr fs), Open Raw (Inr fs)]
                                else [Open m (Inr fs)])"
    by blast
  let ?p = "parent (d_raw s)"
  let ?new = "if m = Raw then [Open ?p (Inr fs), Open Raw (Inr fs)] else [Open m (Inr fs)]"
  let ?nc1 = "nc @ ?new"
  have disj: "set (fds s) \<inter> set fs = {}" using dist s1(2) by auto
  have om: "opened m nc = []" using I3 m by blast
  have op: "\<And>d. opened d ?nc1 = opened d nc @ (if d = m \<or> (m = Raw \<and> d = ?p) then fs else [])"
    using m(2) by (auto simp add: opened_append)
  have c: "calls s1 = cs @ ?nc1" using s1(5) cs by simp
  have "dom (fd_to_dev s1) = set fs \<union> dom (fd_to_dev s)"
    by (auto simp add: s1(3) split: if_splits)
  then have d1: "dom (fd_to_dev s1) = set (fds s1)"
    using I1 s1(2) by auto
  have i2: "fd_to_dev s1 f = Some d \<longleftrightarrow> d \<in> set (devs s1) \<and> f \<in> set (opened d ?nc1)" for f d
  proof (cases "f \<in> set fs")
    case True
    have "f \<notin> set (fds s)" using True disj by blast
    then have none: "fd_to_dev s f = None" using I1 by blast
    have "\<not> (d' \<in> set (devs s) \<and> f \<in> set (opened d' nc))" for d'
      using I2 none by (metis option.distinct(1))
    with True om par show ?thesis
      by (auto simp add: s1(1,3) op)
  next
    case False
    have "fd_to_dev s f = Some d \<longleftrightarrow> d \<in> set (devs s) \<and> f \<in> set (opened d nc)"
      using I2 by blast
    with False om m par show ?thesis
      by (auto simp add: s1(1,3) op)
  qed
  have i3: "opened d ?nc1 \<noteq> [] \<longrightarrow> d \<in> set (devs s1) \<or> d = parent (d_raw s1)" for d
    using I3 by (auto simp add: s1(1,4) op)
  from c d1 i2 i3 show ?thesis by blast
qed

lemma prepare_all_fds:
  "prepare_all env ms s = (None, s') \<Longrightarrow> \<exists>rest. fds s' = fds s @ rest"
proof (induction ms arbitrary: s)
  case Nil
  then show ?case by simp
next
  case (Cons m ms)
  obtain res1 s1 where p: "prepare env m s = (res1, s1)" by (cases "prepare env m s")
  with Cons.prems have r: "res1 = None" and rest: "prepare_all env ms s1 = (None, s')"
    by (auto split: option.splits)
  from prepare_None [OF p [unfolded r]] obtain fs where "fds s1 = fds s @ fs" by blast
  with Cons.IH [OF rest] show ?case by auto
qed

lemma prepare_all_inv:
  assumes "prepare_all env ms s = (None, s')"
    and "calls s = cs @ nc"
    and "dom (fd_to_dev s) = set (fds s)"
    and "\<forall>f d. fd_to_dev s f = Some d \<longleftrightarrow> d \<in> set (devs s) \<and> f \<in> set (opened d nc)"
    and "\<forall>d. opened d nc \<noteq> [] \<longrightarrow> d \<in> set (devs s) \<or> d = parent (d_raw s)"
    and "distinct (devs s @ ms)" and "parent (d_raw s) \<notin> set (devs s @ ms)"
    and "distinct (fds s')"
  shows "devs s' = devs s @ ms \<and> d_raw s' = d_raw s
       \<and> (\<exists>nc'. calls s' = cs @ nc' \<and> dom (fd_to_dev s') = set (fds s')
            \<and> (\<forall>f d. fd_to_dev s' f = Some d \<longleftrightarrow> d \<in> set (devs s') \<and> f \<in> set (opened d nc')))"
  using assms
proof (induction ms arbitrary: s nc)
  case Nil
  then show ?case by auto
next
  case (Cons m ms)
  obtain res1 s1 where p: "prepare env m s = (res1, s1)" by (cases "prepare env m s")
  with Cons.prems(1) have r: "res1 = None" and rest: "prepare_all env ms s1 = (None, s')"
    by (auto split: option.splits)
  note p' = p [unfolded r]
  from prepare_None [OF p'] obtain fs where
    s1: "devs s1 = devs s @ [m]" "d_raw s1 = d_raw s" by blast
  from prepare_all_fds [OF rest] Cons.prems(8) have d1: "distinct (fds s1)" by auto
  have m: "m \<notin> set (devs s)" "m \<noteq> parent (d_raw s)" "parent (d_raw s) \<notin> set (devs s)"
    using Cons.prems(6,7) by auto
  from prepare_step [OF p' Cons.prems(2,3,4,5) m d1]
  obtain nc1 where nc1: "calls s1 = cs @ nc1" "dom (fd_to_dev s1) = set (fds s1)"
      "\<forall>f d. fd_to_dev s1 f = Some d \<longleftrightarrow> d \<in> set (devs s1) \<and> f \<in> set (opened d nc1)"
      "\<forall>d. opened d nc1 \<noteq> [] \<longrightarrow> d \<in> set (devs s1) \<or> d = parent (d_raw s1)"
    by blast
  have dd: "distinct (devs s1 @ ms)" "parent (d_raw s1) \<notin> set (devs s1 @ ms)"
    using Cons.prems(6,7) s1 by auto
  note ih = Cons.IH [OF rest nc1 dd Cons.prems(8)]
  from ih s1 have A: "devs s' = devs s @ m # ms" by simp
  from ih s1 have B: "d_raw s' = d_raw s" by simp
  from ih have C: "\<exists>nc'. calls s' = cs @ nc' \<and> dom (fd_to_dev s') = set (fds s')
            \<and> (\<forall>f d. fd_to_dev s' f = Some d \<longleftrightarrow> d \<in> set (devs s') \<and> f \<in> set (opened d nc'))"
    by blast
  from A B C show ?case by blast
qed

lemma session_registry:
  assumes "prepare_all env (to_prepare accel gyro) (new_session pt cs) = (None, s0)"
    and "distinct (fds s0)"
  shows "devs s0 = to_prepare accel gyro" and "parent (d_raw s0) = RawHid"
    and "take (length cs) (calls s0) = cs"
    and "dom (fd_to_dev s0) = set (fds s0)"
    and "fd_to_dev s0 f = Some d \<longleftrightarrow>
           d \<in> set (to_prepare accel gyro) \<and> f \<in> set (opened d (drop (length cs) (calls s0)))"
proof -
  have "devs s0 = devs (new_session pt cs) @ to_prepare accel gyro
      \<and> d_raw s0 = d_raw (new_session pt cs)
      \<and> (\<exists>nc'. calls s0 = cs @ nc' \<and> dom (fd_to_dev s0) = set (fds s0)
            \<and> (\<forall>f d. fd_to_dev s0 f = Some d \<longleftrightarrow> d \<in> set (devs s0) \<and> f \<in> set (opened d nc')))"
    by (rule prepare_all_inv [OF assms(1), where nc = "[]"])
      (simp_all add: new_session_def init_gate_def to_prepare_def assms(2))
  then obtain nc' where
    a: "devs s0 = to_prepare accel gyro" "d_raw s0 = d_raw (new_session pt cs)"
      "calls s0 = cs @ nc'" "dom (fd_to_dev s0) = set (fds s0)"
      "\<forall>f d. fd_to_dev s0 f = Some d \<longleftrightarrow> d \<in> set (devs s0) \<and> f \<in> set (opened d nc')"
    by (auto simp add: new_session_def)
  show "devs s0 = to_prepare accel gyro" by (rule a(1))
  show "parent (d_raw s0) = RawHid" using a(2) by (simp add: new_session_def init_gate_def)
  show "take (length cs) (calls s0) = cs" using a(3) by simp
  show "dom (fd_to_dev s0) = set (fds s0)" by (rule a(4))
  show "fd_to_dev s0 f = Some d \<longleftrightarrow>
           d \<in> set (to_prepare accel gyro) \<and> f \<in> set (opened d (drop (length cs) (calls s0)))"
    using a(1,3,5) by simp
qed

subsection \<open>The sessions of the concrete environments\<close>

lemmas ev_defs = to_prepare_def prepare_def dev_open_def new_session_def init_gate_def Let_def
  dev_close_def dev_produce_def dev_consume_def iteration_def controller_loop_xinput_def
  try_block_def produce_def

lemma idle_registration:
  "prepare_all idle_env (to_prepare True True) (new_session [''mode'', ''share''] []) =
    (None,
     \<lparr>fds = [3, 4, 5, 6, 7, 8, 9],
      devs = [DS5, AccelImu, GyroImu, XInput, Shortcuts, Touch, Raw],
      fd_to_dev = [3 \<mapsto> DS5, 4 \<mapsto> AccelImu, 5 \<mapsto> GyroImu, 6 \<mapsto> XInput, 7 \<mapsto> Shortcuts,
                   8 \<mapsto> Touch, 9 \<mapsto> Raw],
      d_raw = init_gate RawHid [''share'', ''mode''] [''mode'', ''share''],
      calls = [Open DS5 (Inr [3]), Open AccelImu (Inr [4]), Open GyroImu (Inr [5]),
               Open XInput (Inr [6]), Open Shortcuts (Inr [7]), Open Touch (Inr [8]),
               Open RawHid (Inr [9]), Open Raw (Inr [9])]\<rparr>)"
  by (simp add: idle_env_def ev_defs)

lemma idle_session_eq:
  "idle_session =
     \<lparr>fds = [3, 4, 5, 6, 7, 8, 9],
      devs = [DS5, AccelImu, GyroImu, XInput, Shortcuts, Touch, Raw],
      fd_to_dev = [3 \<mapsto> DS5, 4 \<mapsto> AccelImu, 5 \<mapsto> GyroImu, 6 \<mapsto> XInput, 7 \<mapsto> Shortcuts,
                   8 \<mapsto> Touch, 9 \<mapsto> Raw],
      d_raw = init_gate RawHid [''share'', ''mode''] [''mode'', ''share''],
      calls = [Open DS5 (Inr [3]), Open AccelImu (Inr [4]), Open GyroImu (Inr [5]),
               Open XInput (Inr [6]), Open Shortcuts (Inr [7]), Open Touch (Inr [8]),
               Open RawHid (Inr [9]), Open Raw (Inr [9])]\<rparr>"
  by (simp add: idle_session_def idle_registration)

lemma steady_registration:
  "prepare_all steady_env (to_prepare True False) (new_session [''mode'', ''share''] []) =
    (None,
     \<lparr>fds = [3, 4, 6, 7, 8, 10, 9],
      devs = [DS5, AccelImu, XInput, Shortcuts, Touch, Raw],
      fd_to_dev = [3 \<mapsto> DS5, 4 \<mapsto> AccelImu, 6 \<mapsto> XInput, 7 \<mapsto> Shortcuts,
                   8 \<mapsto> Touch, 10 \<mapsto> Touch, 9 \<mapsto> Raw],
      d_raw = init_gate RawHid [''share'', ''mode''] [''mode'', ''share''],
      calls = [Open DS5 (Inr [3]), Open AccelImu (Inr [4]),
               Open XInput (Inr [6]), Open Shortcuts (Inr [7]), Open Touch (Inr [8, 10]),
               Open RawHid (Inr [9]), Open Raw (Inr [9])]\<rparr>)"
  by (simp add: steady_env_def busy_env_def ev_defs)

lemma steady_session_eq:
  "steady_session =
     \<lparr>fds = [3, 4, 6, 7, 8, 10, 9],
      devs = [DS5, AccelImu, XInput, Shortcuts, Touch, Raw],
      fd_to_dev = [3 \<mapsto> DS5, 4 \<mapsto> AccelImu, 6 \<mapsto> XInput, 7 \<mapsto> Shortcuts,
                   8 \<mapsto> Touch, 10 \<mapsto> Touch, 9 \<mapsto> Raw],
      d_raw = init_gate RawHid [''share'', ''mode''] [''mode'', ''share''],
      calls = [Open DS5 (Inr [3]), Open AccelImu (Inr [4]),
               Open XInput (Inr [6]), Open Shortcuts (Inr [7]), Open Touch (Inr [8, 10]),
               Open RawHid (Inr [9]), Open Raw (Inr [9])]\<rparr>"
  by (simp add: steady_session_def steady_registration)

lemma steady_iteration:
  "fst (iteration steady_env steady_session) = None"
  "drop (length (calls steady_session)) (calls (snd (iteration steady_env steady_session)))
     = [Select [3, 4, 6, 7, 8, 10, 9] (Inr [10, 9, 8]),
        Produce Touch [10, 9, 8] (Inr [Axis ''touchpad_x'' 5]),
        Produce RawHid [10, 9, 8] (Inr [Button ''mode'' (Some True), Button ''a'' (Some True)]),
        Produce Raw [10, 9, 8] (Inr [Button ''mode'' (Some True), Button ''a'' (Some True)]),
        Consume DS5 [Axis ''touchpad_x'' 5, Button ''mode'' (Some True), Button ''a'' (Some True)] None,
        Consume XInput [Axis ''touchpad_x'' 5, Button ''mode'' (Some True), Button ''a'' (Some True)] None,
        Consume RawHid [Axis ''touchpad_x'' 5, Button ''mode'' (Some True), Button ''a'' (Some True)] None,
        Consume Raw [Axis ''touchpad_x'' 5, Button ''mode'' (Some True), Button ''a'' (Some True)] None]"
  by (simp_all add: steady_session_eq) (simp_all add: steady_env_def busy_env_def ev_defs)

subsection \<open>Which devices produce\<close>

lemma dev_produce_Inr:
  assumes "dev_produce env d r s = (Inr b, s')" and "d \<in> set ds"
    and "parent (d_raw s) \<notin> set ds"
  shows "\<exists>new. calls s' = calls s @ new \<and> produce_calls ds new = [d] \<and> batches ds new = [b]
           \<and> consumed new = []"
proof (cases "d = Raw")
  case True
  with assms show ?thesis
    by (auto simp add: dev_produce_def Let_def split: sum.splits prod.splits)
next
  case False
  with assms show ?thesis
    by (auto simp add: dev_produce_def Let_def)
qed

lemma run_producers_Inr:
  "run_producers env tr r ds evs s = (Inr evs', s') \<Longrightarrow> set ds \<subseteq> set D \<Longrightarrow>
   parent (d_raw s) \<notin> set D \<Longrightarrow>
     \<exists>new. calls s' = calls s @ new \<and> produce_calls D new = filter (\<lambda>d. d \<in> tr) ds
       \<and> evs' = evs @ concat (batches D new) \<and> consumed new = []"
proof (induction ds arbitrary: evs s)
  case Nil
  then show ?case by simp
next
  case (Cons d ds)
  show ?case
  proof (cases "d \<in> tr")
    case False
    with Cons.prems have "run_producers env tr r ds evs s = (Inr evs', s')" by simp
    from Cons.IH [OF this] Cons.prems(2,3) False show ?thesis by simp
  next
    case True
    obtain res s1 where dp: "dev_produce env d r s = (res, s1)"
      by (cases "dev_produce env d r s")
    with True Cons.prems(1) obtain b where res: "res = Inr b"
      by (cases res) simp_all
    from True Cons.prems(1) dp res
    have rest: "run_producers env tr r ds (evs @ b) s1 = (Inr evs', s')" by simp
    have d: "d \<in> set D" using Cons.prems(2) by simp
    from dev_produce_Inr [OF dp [unfolded res] d Cons.prems(3)]
    obtain new1 where new1: "calls s1 = calls s @ new1" "produce_calls D new1 = [d]"
        "batches D new1 = [b]" "consumed new1 = []"
      by blast
    have par: "parent (d_raw s1) = parent (d_raw s)"
      using dev_produce_frame [OF dp] by simp
    from Cons.IH [OF rest] Cons.prems(2,3) par
    obtain new2 where new2: "calls s' = calls s1 @ new2"
        "produce_calls D new2 = filter (\<lambda>d. d \<in> tr) ds"
        "evs' = (evs @ b) @ concat (batches D new2)" "consumed new2 = []"
      by auto
    have "calls s' = calls s @ (new1 @ new2)" using new1(1) new2(1) by simp
    moreover have "produce_calls D (new1 @ new2) = filter (\<lambda>d. d \<in> tr) (d # ds)"
      using new1(2) new2(2) True by (simp add: produce_calls_append)
    moreover have "evs' = evs @ concat (batches D (new1 @ new2))"
      using new1(3) new2(3) by (simp add: batches_append)
    moreover have "consumed (new1 @ new2) = []"
      using new1(4) new2(4) by (simp add: consumed_append)
    ultimately show ?thesis by blast
  qed
qed

lemma consume_three:
  assumes "consume_all env [DS5, XInput, Raw] b s = (None, s')"
  shows "\<exists>new. calls s' = calls s @ new \<and> produce_calls D new = [] \<and> batches D new = []
           \<and> consumed new = map (\<lambda>d. (d, b)) [DS5, XInput, parent (d_raw s), Raw]"
  using assms
  by (auto simp add: dev_consume_def Let_def split: option.splits)

lemma iteration_None:
  assumes "iteration env s = (None, s')" and "select env (fds s) (calls s) = Inr r"
  shows "\<exists>to_run evs s2. to_run_of (fd_to_dev s) r {} = Inr to_run
     \<and> run_producers env to_run r (devs s) []
           (s\<lparr>calls := calls s @ [Select (fds s) (Inr r)]\<rparr>) = (Inr evs, s2)
     \<and> (if evs = [] then s' = s2
         else consume_all env [DS5, XInput, Raw] (process env evs) s2 = (None, s'))"
  using assms
  by (auto simp add: iteration_def Let_def simp del: consume_all.simps
        split: sum.splits prod.splits if_splits)

lemma count_list_filter_distinct:
  "distinct xs \<Longrightarrow> count_list (filter P xs) x = (if x \<in> set xs \<and> P x then 1 else 0)"
  by (induction xs) auto

lemma to_prepare_distinct: "distinct (to_prepare accel gyro)" "RawHid \<notin> set (to_prepare accel gyro)"
  by (simp_all add: to_prepare_def)

text \<open>
  Claim C7. Take a session whose registrations by \<open>prepare\<close> succeeded, with no handle
  returned by two calls of \<open>open\<close>, and any iteration of its loop that ends without an
  exception, after any number \<open>j\<close> of earlier ones; let \<open>r\<close> be the handles that \<open>select\<close>
  reports ready. A device owns a ready handle when its \<open>open\<close> returned one. Among the
  calls that the iteration adds, the calls of \<open>produce\<close> on registered devices are exactly
  the registered devices that own a ready handle, in the order of registration; each of
  them is called once, however many of its handles are ready, and no other device is
  called. The returned batches, concatenated in that order, are the single batch of the
  iteration: when it is empty no \<open>consume\<close> is called, and otherwise every \<open>consume\<close>
  receives it, passed through the multiplexer.
\<close>

theorem ready_sources_produce_once_in_order:
  assumes reg: "prepare_all env (to_prepare accel gyro) (new_session pt cs) = (None, s0)"
    and excl: "distinct (fds s0)"
    and before: "loop env j s0 = (None, s)"
    and sel: "select env (fds s) (calls s) = Inr r"
    and it: "iteration env s = (None, s')"
    and owns: "owns = (\<lambda>d. \<exists>f\<in>set r. f \<in> set (opened d (drop (length cs) (calls s0))))"
    and new: "new = drop (length (calls s)) (calls s')"
  shows "devs s = to_prepare accel gyro
       \<and> take (length (calls s)) (calls s') = calls s
       \<and> produce_calls (devs s) new = filter owns (devs s)
       \<and> count_list (produce_calls (devs s) new) d = (if d \<in> set (devs s) \<and> owns d then 1 else 0)
       \<and> consumed new =
           (if concat (batches (devs s) new) = [] then []
            else map (\<lambda>d. (d, process env (concat (batches (devs s) new))))
                   [DS5, XInput, RawHid, Raw])"
proof -
  note rg = session_registry [OF reg excl]
  note fr = loop_frame [OF before]
  have devs: "devs s = to_prepare accel gyro" using fr rg(1) by simp
  have par: "parent (d_raw s) = RawHid" using fr rg(2) by simp
  have own: "fd_to_dev s f = Some d \<longleftrightarrow> d \<in> set (devs s) \<and> f \<in> set (opened d (drop (length cs) (calls s0)))"
    for f d
    using rg(5) [of f d] fr devs by simp
  let ?s1 = "s\<lparr>calls := calls s @ [Select (fds s) (Inr r)]\<rparr>"
  from iteration_None [OF it sel] obtain to_run evs s2 where
    tr: "to_run_of (fd_to_dev s) r {} = Inr to_run"
    and rp: "run_producers env to_run r (devs s) [] ?s1 = (Inr evs, s2)"
    and co: "if evs = [] then s' = s2
         else consume_all env [DS5, XInput, Raw] (process env evs) s2 = (None, s')"
    by blast
  have trs: "to_run = {d. \<exists>f\<in>set r. fd_to_dev s f = Some d}"
    using to_run_of_Inr [OF tr] by simp
  have flt: "filter (\<lambda>d. d \<in> to_run) (devs s) = filter owns (devs s)"
    unfolding trs owns by (rule filter_cong) (auto simp add: own)
  have p1: "parent (d_raw ?s1) \<notin> set (devs s)"
    using par devs to_prepare_distinct(2) by simp
  from run_producers_Inr [OF rp subset_refl p1]
  obtain new1 where new1: "calls s2 = calls s @ [Select (fds s) (Inr r)] @ new1"
      "produce_calls (devs s) new1 = filter (\<lambda>d. d \<in> to_run) (devs s)"
      "evs = concat (batches (devs s) new1)" "consumed new1 = []"
    by auto
  have p2: "parent (d_raw s2) = RawHid"
    using run_producers_frame [OF rp] par by simp
  have "\<exists>new2. calls s' = calls s2 @ new2 \<and> produce_calls (devs s) new2 = []
       \<and> batches (devs s) new2 = []
       \<and> consumed new2 = (if evs = [] then []
            else map (\<lambda>d. (d, process env evs)) [DS5, XInput, RawHid, Raw])"
  proof (cases "evs = []")
    case True
    with co show ?thesis by simp
  next
    case False
    with co have "consume_all env [DS5, XInput, Raw] (process env evs) s2 = (None, s')" by simp
    from consume_three [OF this, of "devs s"] False p2 show ?thesis by simp
  qed
  then obtain new2 where new2: "calls s' = calls s2 @ new2" "produce_calls (devs s) new2 = []"
     "batches (devs s) new2 = []"
     "consumed new2 = (if evs = [] then []
            else map (\<lambda>d. (d, process env evs)) [DS5, XInput, RawHid, Raw])"
    by blast
  have all: "calls s' = calls s @ ([Select (fds s) (Inr r)] @ new1 @ new2)"
    using new1(1) new2(1) by simp
  then have nw: "new = [Select (fds s) (Inr r)] @ new1 @ new2"
    unfolding new by simp
  have pc: "produce_calls (devs s) new = filter owns (devs s)"
    unfolding nw using new1(2) new2(2) flt by (simp add: produce_calls_append)
  have bt: "concat (batches (devs s) new) = evs"
    unfolding nw using new1(3) new2(3) by (simp add: batches_append)
  have cn: "consumed new = (if evs = [] then []
            else map (\<lambda>d. (d, process env evs)) [DS5, XInput, RawHid, Raw])"
    unfolding nw using new1(4) new2(4) by (simp add: consumed_append)
  have ct: "count_list (produce_calls (devs s) new) d = (if d \<in> set (devs s) \<and> owns d then 1 else 0)"
    unfolding pc using to_prepare_distinct(1) [of accel gyro] devs
    by (simp add: count_list_filter_distinct)
  from devs all pc ct cn bt show ?thesis by simp
qed

theorem ready_sources_produce_once_in_order_witness:
  "produce_calls (devs steady_session)
      (drop (length (calls steady_session)) (calls (snd (iteration steady_env steady_session))))
     = [Touch, Raw]
   \<and> count_list (produce_calls (devs steady_session)
        (drop (length (calls steady_session)) (calls (snd (iteration steady_env steady_session)))))
        Touch = 1
   \<and> consumed (drop (length (calls steady_session))
        (calls (snd (iteration steady_env steady_session))))
     = map (\<lambda>d. (d, [Axis ''touchpad_x'' 5, Button ''mode'' (Some True), Button ''a'' (Some True)]))
         [DS5, XInput, RawHid, Raw]"
proof -
  let ?pt = "[''mode'', ''share'']"
  let ?s' = "snd (iteration steady_env steady_session)"
  let ?owns = "\<lambda>d. \<exists>f\<in>set [10, 9, 8].
      f \<in> set (opened d (drop (length ([] :: int call list)) (calls steady_session)))"
  have reg: "prepare_all steady_env (to_prepare True False) (new_session ?pt [])
      = (None, steady_session)"
    by (simp add: steady_registration steady_session_eq)
  have excl: "distinct (fds steady_session)"
    by (simp add: steady_session_eq)
  have before: "loop steady_env 0 steady_session = (None, steady_session)"
    by simp
  have sel: "select steady_env (fds steady_session) (calls steady_session) = Inr [10, 9, 8]"
    by (simp add: steady_session_eq) (simp add: steady_env_def busy_env_def)
  have it: "iteration steady_env steady_session = (None, ?s')"
    using steady_iteration(1) by (simp add: prod_eq_iff)
  have devs: "devs steady_session = [DS5, AccelImu, XInput, Shortcuts, Touch, Raw]"
    by (simp add: steady_session_eq)
  have owners: "filter ?owns (devs steady_session) = [Touch, Raw]"
    by (simp add: steady_session_eq)
  have touch: "Touch \<in> set (devs steady_session) \<and> ?owns Touch"
    by (simp add: steady_session_eq)
  have bs: "concat (batches (devs steady_session)
        (drop (length (calls steady_session)) (calls ?s')))
      = [Axis ''touchpad_x'' 5, Button ''mode'' (Some True), Button ''a'' (Some True)]"
    by (simp add: steady_iteration(2) devs)
  have pr: "process steady_env = (\<lambda>evs. evs)"
    by (simp add: steady_env_def busy_env_def)
  note all = ready_sources_produce_once_in_order [OF reg excl before sel it refl refl, of Touch]
  let ?new = "drop (length (calls steady_session)) (calls ?s')"
  from all have "produce_calls (devs steady_session) ?new = filter ?owns (devs steady_session)"
    by (elim conjE)
  then have pc: "produce_calls (devs steady_session) ?new = [Touch, Raw]"
    by (simp only: owners)
  from all have "count_list (produce_calls (devs steady_session) ?new) Touch
      = (if Touch \<in> set (devs steady_session) \<and> ?owns Touch then 1 else 0)"
    by (elim conjE)
  then have ct: "count_list (produce_calls (devs steady_session) ?new) Touch = 1"
    by (simp only: touch simp_thms if_True)
  from all have "consumed ?new =
      (if concat (batches (devs steady_session) ?new) = [] then []
       else map (\<lambda>d. (d, process steady_env (concat (batches (devs steady_session) ?new))))
              [DS5, XInput, RawHid, Raw])"
    by (elim conjE)
  then have cn: "consumed ?new
     = map (\<lambda>d. (d, [Axis ''touchpad_x'' 5, Button ''mode'' (Some True), Button ''a'' (Some True)]))
         [DS5, XInput, RawHid, Raw]"
    by (simp only: bs pr) simp
  from pc ct cn show ?thesis by (intro conjI)
qed

subsection \<open>Closing\<close>

text \<open>
  Claim C2. The claim asks that closing the passthrough closes the source it wraps.
  \<open>close\<close> of the passthrough adds one call, its own, where \<open>open\<close> adds the call on
  the parent as well. In the session of \<open>idle_env\<close>, which the user interrupts at the
  second wait, every registered device is closed once by the \<open>finally\<close> block, but the
  hidraw device, opened through the passthrough, is not closed: \<open>close\<close> of the
  passthrough calls the base class, where \<open>open\<close>, \<open>produce\<close> and \<open>consume\<close> call the
  parent.
\<close>

theorem wrapped_source_is_never_closed:
  "calls (snd (dev_close env Raw exit s)) = calls s @ [Close Raw exit (producer_close env exit)]
   \<and> calls (snd (dev_open env Raw s))
     = calls s @ [Open (parent (d_raw s)) (open_dev env (parent (d_raw s)) (calls s)),
                  Open Raw (open_dev env (parent (d_raw s)) (calls s))]
   \<and> fst (controller_loop_xinput idle_env True True [''mode'', ''share''] (Suc (Suc 0)) [])
     = Some KeyboardInterrupt
   \<and> calls (snd (controller_loop_xinput idle_env True True [''mode'', ''share''] (Suc (Suc 0)) []))
     = [Open DS5 (Inr [3]), Open AccelImu (Inr [4]), Open GyroImu (Inr [5]),
        Open XInput (Inr [6]), Open Shortcuts (Inr [7]),
        Open Touch (Inr [8]), Open RawHid (Inr [9]), Open Raw (Inr [9]),
        Select [3, 4, 5, 6, 7, 8, 9] (Inr []),
        Select [3, 4, 5, 6, 7, 8, 9] (Inl KeyboardInterrupt),
        Close DS5 True (Inr True), Close AccelImu True (Inr True),
        Close GyroImu True (Inr True), Close XInput True (Inr True),
        Close Shortcuts True (Inr True), Close Touch True (Inr True),
        Close Raw True (Inr False)]"
  by (simp add: dev_close_def dev_open_def Let_def) (simp add: idle_env_def ev_defs)

subsection \<open>An iteration without events\<close>

text \<open>
  Claim C3. The claim asks that an iteration whose wait runs into the timeout still
  dispatches to the consumers, as the comment above the call of \<open>select\<close> announces.
  In the session of \<open>idle_env\<close> the first wait returns no handle; the iteration ends
  without an exception and the only call it adds is the one of \<open>select\<close>: the batch is
  empty and \<open>if evs\<close> skips the three calls of \<open>consume\<close>.
\<close>

theorem timeout_iteration_consumes_nothing:
  "select idle_env (fds idle_session) (calls idle_session) = Inr []
   \<and> iteration idle_env idle_session
       = (None, idle_session\<lparr>calls := calls idle_session @ [Select [3, 4, 5, 6, 7, 8, 9] (Inr [])]\<rparr>)"
  by (simp add: idle_session_eq) (simp add: idle_env_def iteration_def Let_def)

section \<open>Properties of the supervisor\<close>




end
